theory Spec2Isabelle
  imports Complex_Main
begin

section \<open>The fidelity-pair selector of the qubit-allocation notebook\<close>

text \<open>
  The notebook \<^verbatim>\<open>Allocating_Qubits_on_QPU_Devices.ipynb\<close> defines one function,
  \<^verbatim>\<open>find_qubit_pair(gate)\<close>. It checks its argument, reads the two-qubit calibration
  data of the global \<^verbatim>\<open>device\<close>, scans it for the highest fidelity of the gate, and
  parses the label of the best pair into two integers. This theory embeds that function
  statement by statement and proves what it does.

  Conventions of the embedding:
  \<^item> a Python value that may be passed as \<^verbatim>\<open>gate\<close> is a \<open>py_value\<close>;
  \<^item> a Python \<^verbatim>\<open>str\<close> is a \<open>string\<close>, one \<open>char\<close> per code point (code points
    0 to 255);
  \<^item> a fidelity (a finite Python float) is a \<open>real\<close>, and \<^verbatim>\<open>>\<close> is the order of
    the reals; the integer \<^verbatim>\<open>0\<close> that starts the running maximum is the real 0;
  \<^item> the dictionary \<^verbatim>\<open>specs['2Q']\<close> is an association list in the dictionary's
    iteration order (a dictionary has no key twice: \<open>distinct (keys d)\<close>), and the
    record of one pair is a map from field name to value;
  \<^item> an exception is a value \<open>Inl e\<close> of the result, a normal return is \<open>Inr r\<close>;
  \<^item> the program state outside the function is a record \<open>globals\<close>, passed in and
    returned.
\<close>

subsection \<open>Values, exceptions and the program state\<close>

datatype py_value =
    PyStr string
  | PyInt int
  | PyFloat real
  | PyBool bool
  | PyNone
  | PyList "py_value list"

text \<open>
  The exceptions the function can end with. \<open>ValueError msg\<close> is a \<^verbatim>\<open>ValueError\<close>
  raised by one of the two \<^verbatim>\<open>raise\<close> statements of the function, with its message.
  \<open>InvalidLiteral s\<close> is the \<^verbatim>\<open>ValueError\<close> that the builtin \<^verbatim>\<open>int(s)\<close> raises on
  a string that is no integer literal. \<open>UnboundLocalError v\<close> is the read of the local
  variable \<open>v\<close> before any assignment, \<open>IndexError\<close> a string index out of range,
  \<open>KeyError k\<close> a dictionary read at a missing key.
\<close>

datatype error =
    ValueError string
  | InvalidLiteral string
  | UnboundLocalError string
  | IndexError
  | KeyError string

type_synonym pair_record = "string \<rightharpoonup> real"

type_synonym calibration = "(string \<times> pair_record) list"

text \<open>\<open>device_specs\<close> is the dictionary \<^verbatim>\<open>device.properties.provider.specs\<close>.\<close>

record globals =
  device_specs :: "string \<rightharpoonup> calibration"

text \<open>The local variables the \<^verbatim>\<open>for\<close> loop assigns; \<open>best_pair = None\<close> is
  the variable not yet bound.\<close>

record locals =
  highest_fidelity :: real
  best_pair :: "string option"

subsection \<open>The scan for the highest fidelity\<close>

definition gate_list :: "string list" where
  "gate_list = [''CPHASE'', ''CZ'', ''XY'']"

definition keys :: "('k \<times> 'v) list \<Rightarrow> 'k list" where
  "keys d = map fst d"

text \<open>
  One iteration of
  \<^verbatim>\<open>
    for pair in calibration_2Q.keys():
        if ('f'+ gate) in calibration_2Q[pair].keys():
            if calibration_2Q[pair]['f'+ gate] > highest_fidelity:
                highest_fidelity = calibration_2Q[pair]['f'+ gate]
                best_pair = pair
  \<close>
\<close>

definition loop_body :: "string \<Rightarrow> calibration \<Rightarrow> string \<Rightarrow> locals \<Rightarrow> error + locals" where
  "loop_body gate calibration_2Q pair l =
     (case map_of calibration_2Q pair of
        None \<Rightarrow> Inl (KeyError pair)
      | Some r \<Rightarrow>
          (case r (''f'' @ gate) of
             None \<Rightarrow> Inr l
           | Some v \<Rightarrow>
               if v > highest_fidelity l
               then Inr (l\<lparr>highest_fidelity := v, best_pair := Some pair\<rparr>)
               else Inr l))"

fun for_loop :: "string \<Rightarrow> calibration \<Rightarrow> string list \<Rightarrow> locals \<Rightarrow> error + locals" where
  "for_loop gate calibration_2Q [] l = Inr l"
| "for_loop gate calibration_2Q (pair # pairs) l =
     (case loop_body gate calibration_2Q pair l of
        Inl e \<Rightarrow> Inl e
      | Inr l' \<Rightarrow> for_loop gate calibration_2Q pairs l')"

subsection \<open>The builtin \<open>int\<close> on a string\<close>

text \<open>
  \<^verbatim>\<open>int(s)\<close> in base 10: white space around the literal is dropped (the characters 9
  to 13 and 32, and the white space of the code points above 127, which are 133 and
  160), one sign may come first, then decimal digits, where single underscores may
  stand between digits. Anything else is a \<^verbatim>\<open>ValueError\<close>. Python's integers are
  unbounded, and the notebook's Python (3.7) has no limit on the number of digits.
\<close>

definition py_isspace :: "char \<Rightarrow> bool" where
  "py_isspace c = ((of_char c :: nat) \<in> {9, 10, 11, 12, 13, 32, 133, 160})"

definition is_digit :: "char \<Rightarrow> bool" where
  "is_digit c = (48 \<le> (of_char c :: nat) \<and> (of_char c :: nat) \<le> 57)"

definition digit_value :: "char \<Rightarrow> nat" where
  "digit_value c = of_char c - 48"

definition digits_value :: "string \<Rightarrow> nat" where
  "digits_value ds = foldl (\<lambda>n c. 10 * n + digit_value c) 0 ds"

definition strip :: "string \<Rightarrow> string" where
  "strip s = rev (dropWhile py_isspace (rev (dropWhile py_isspace s)))"

text \<open>A literal's body: starts and ends with a digit, holds digits and underscores
  only, and no two underscores in a row.\<close>

fun digits_ok :: "string \<Rightarrow> bool" where
  "digits_ok [] = False"
| "digits_ok [c] = is_digit c"
| "digits_ok (c # d # cs) =
     (if is_digit c then
        (if d = CHR ''_'' then digits_ok cs else digits_ok (d # cs))
      else False)"

definition py_int :: "string \<Rightarrow> error + int" where
  "py_int s =
     (let t = strip s;
          neg = (t \<noteq> [] \<and> hd t = CHR ''-'');
          body = (if t \<noteq> [] \<and> (hd t = CHR ''+'' \<or> hd t = CHR ''-'') then tl t else t)
      in if digits_ok body
         then Inr ((if neg then - 1 else 1) *
                   int (digits_value (filter (\<lambda>c. c \<noteq> CHR ''_'') body)))
         else Inl (InvalidLiteral s))"

subsection \<open>Parsing the label of the best pair\<close>

text \<open>
  \<^verbatim>\<open>
    while best_pair[i] is not '-':
        q1 += best_pair[i]
        i += 1
  \<close>
  \<^verbatim>\<open>best_pair[i]\<close> raises \<^verbatim>\<open>IndexError\<close> once \<open>i\<close> reaches the length of the
  string. The test \<^verbatim>\<open>is not '-'\<close> compares object identity; CPython keeps one object
  for each one-character string of code points below 256, so here it is the
  inequality of characters. The string \<^verbatim>\<open>best_pair\<close> is the argument \<open>bp\<close>.
\<close>

function while_loop :: "string \<Rightarrow> string \<Rightarrow> nat \<Rightarrow> error + string \<times> nat" where
  "while_loop bp q1 i =
     (if length bp \<le> i then Inl IndexError
      else if bp ! i \<noteq> CHR ''-''
           then while_loop bp (q1 @ [bp ! i]) (i + 1)
           else Inr (q1, i))"
  by pat_completeness auto
termination
  by (relation "measure (\<lambda>(bp, q1, i). length bp - i)") auto

declare while_loop.simps [simp del]

text \<open>
  \<^verbatim>\<open>
    q1 = best_pair[0]
    i = 1
    while ...
    q1 = int(q1)
    q2 = int(best_pair[i+1:])
  \<close>
\<close>

definition parse_pair :: "string \<Rightarrow> error + int \<times> int" where
  "parse_pair bp =
     (if bp = [] then Inl IndexError
      else
        (case while_loop bp [bp ! 0] 1 of
           Inl e \<Rightarrow> Inl e
         | Inr (q1, i) \<Rightarrow>
             (case py_int q1 of
                Inl e \<Rightarrow> Inl e
              | Inr n1 \<Rightarrow>
                  (case py_int (drop (i + 1) bp) of
                     Inl e \<Rightarrow> Inl e
                   | Inr n2 \<Rightarrow> Inr (n1, n2)))))"

subsection \<open>The function\<close>

text \<open>
  The case distinction on the argument is the \<^verbatim>\<open>isinstance(gate, str)\<close> check: its
  last branch is the first \<^verbatim>\<open>raise\<close>. The global \<^verbatim>\<open>device\<close> is bound (the notebook
  assigns it before the call), and \<^verbatim>\<open>specs['2Q']\<close> is a dictionary read, which raises
  \<^verbatim>\<open>KeyError\<close> at a missing key. After the loop, \<^verbatim>\<open>best_pair[0]\<close> reads the local
  variable, which raises \<^verbatim>\<open>UnboundLocalError\<close> when the loop never assigned it.

  The result comes with the program state the call leaves behind. The function has no
  assignment to a global, an attribute or a dictionary item, and calls no method but
  \<^verbatim>\<open>keys()\<close>, so every branch returns the state it was given.
\<close>

definition find_qubit_pair ::
  "py_value \<Rightarrow> 'a globals_scheme \<Rightarrow> (error + int \<times> int \<times> real) \<times> 'a globals_scheme" where
  "find_qubit_pair gate g =
     (case gate of
        PyStr s \<Rightarrow>
          if s \<notin> set gate_list
          then (Inl (ValueError ''The input gate must be either CPHASE, CZ or XY.''), g)
          else
            (case device_specs g ''2Q'' of
               None \<Rightarrow> (Inl (KeyError ''2Q''), g)
             | Some calibration_2Q \<Rightarrow>
                 (case for_loop s calibration_2Q (keys calibration_2Q)
                         \<lparr>highest_fidelity = 0, best_pair = None\<rparr> of
                    Inl e \<Rightarrow> (Inl e, g)
                  | Inr l \<Rightarrow>
                      (case best_pair l of
                         None \<Rightarrow> (Inl (UnboundLocalError ''best_pair''), g)
                       | Some bp \<Rightarrow>
                           (case parse_pair bp of
                              Inl e \<Rightarrow> (Inl e, g)
                            | Inr (q1, q2) \<Rightarrow> (Inr (q1, q2, highest_fidelity l), g)))))
      | _ \<Rightarrow> (Inl (ValueError ''The input gate must be a string type.''), g))"

subsection \<open>Vocabulary of the statements\<close>

text \<open>The fidelity that the table defines for a gate at a pair label, if any.\<close>

definition fidelity :: "string \<Rightarrow> calibration \<Rightarrow> string \<Rightarrow> real option" where
  "fidelity gate cal pair =
     (case map_of cal pair of None \<Rightarrow> None | Some r \<Rightarrow> r (''f'' @ gate))"

text \<open>A non-empty string of decimal digits: one side of a pair label of the data
  model, which is two such strings joined by a hyphen.\<close>

definition digits :: "string \<Rightarrow> bool" where
  "digits ds = (ds \<noteq> [] \<and> list_all is_digit ds)"

section \<open>Properties\<close>

subsection \<open>The scan\<close>

lemma map_of_keys: "p \<in> set (keys cal) \<Longrightarrow> \<exists>r. map_of cal p = Some r \<and> (p, r) \<in> set cal"
proof -
  assume "p \<in> set (keys cal)"
  then have "map_of cal p \<noteq> None"
    by (simp add: keys_def map_of_eq_None_iff)
  then obtain r where "map_of cal p = Some r" by blast
  then show ?thesis by (blast dest: map_of_SomeD)
qed

lemma loop_body_key:
  assumes "p \<in> set (keys cal)"
  shows "loop_body s cal p l =
     (case fidelity s cal p of
        None \<Rightarrow> Inr l
      | Some v \<Rightarrow>
          if highest_fidelity l < v
          then Inr (l\<lparr>highest_fidelity := v, best_pair := Some p\<rparr>)
          else Inr l)"
proof -
  from map_of_keys [OF assms] obtain r where "map_of cal p = Some r"
    by (elim exE conjE)
  then show ?thesis
    by (simp add: loop_body_def fidelity_def)
qed

lemma loop_body_InrE:
  assumes "loop_body s cal p l = Inr l1"
  obtains (skip) "l1 = l" "\<And>v. fidelity s cal p = Some v \<Longrightarrow> v \<le> highest_fidelity l"
  | (update) v where "fidelity s cal p = Some v" "highest_fidelity l < v"
      "l1 = l\<lparr>highest_fidelity := v, best_pair := Some p\<rparr>"
proof (cases "map_of cal p")
  case None
  with assms show ?thesis by (simp add: loop_body_def)
next
  case (Some r)
  show ?thesis
  proof (cases "r (''f'' @ s)")
    case None
    with Some assms have "l1 = l" "fidelity s cal p = None"
      by (simp_all add: loop_body_def fidelity_def)
    then show ?thesis using skip by simp
  next
    case v: (Some v)
    show ?thesis
    proof (cases "highest_fidelity l < v")
      case True
      with Some v assms have "l1 = l\<lparr>highest_fidelity := v, best_pair := Some p\<rparr>"
        "fidelity s cal p = Some v"
        by (simp_all add: loop_body_def fidelity_def)
      then show ?thesis using update [of v] True by simp
    next
      case False
      with Some v assms have "l1 = l" "fidelity s cal p = Some v"
        by (simp_all add: loop_body_def fidelity_def)
      with False show ?thesis using skip by simp
    qed
  qed
qed

lemma for_loop_ConsE:
  assumes "for_loop s cal (p # ks) l = Inr l'"
  obtains l1 where "loop_body s cal p l = Inr l1" "for_loop s cal ks l1 = Inr l'"
  using assms by (cases "loop_body s cal p l") simp_all

lemma for_loop_error: "for_loop s cal ks l = Inl e \<Longrightarrow> \<exists>k. e = KeyError k"
proof (induction ks arbitrary: l)
  case Nil
  then show ?case by simp
next
  case (Cons p ks)
  show ?case
  proof (cases "loop_body s cal p l")
    case (Inl e')
    with Cons.prems have "e' = e" by simp
    with Inl show ?thesis
      by (auto simp: loop_body_def split: option.splits if_splits)
  next
    case (Inr l1)
    with Cons.prems have "for_loop s cal ks l1 = Inl e" by simp
    then show ?thesis by (rule Cons.IH)
  qed
qed

lemma for_loop_append:
  "for_loop s cal (xs @ ys) l =
     (case for_loop s cal xs l of Inl e \<Rightarrow> Inl e | Inr l' \<Rightarrow> for_loop s cal ys l')"
  by (induction xs arbitrary: l) (simp_all split: sum.splits)

lemma for_loop_unchanged:
  assumes "set ks \<subseteq> set (keys cal)"
    and "\<And>p v. p \<in> set ks \<Longrightarrow> fidelity s cal p = Some v \<Longrightarrow> v \<le> highest_fidelity l"
  shows "for_loop s cal ks l = Inr l"
  using assms
proof (induction ks)
  case Nil
  show ?case by simp
next
  case (Cons p ks)
  from Cons.prems(1) have p: "p \<in> set (keys cal)" by simp
  have "loop_body s cal p l = Inr l"
  proof (cases "fidelity s cal p")
    case None
    then show ?thesis by (simp add: loop_body_key [OF p])
  next
    case (Some v)
    with Cons.prems(2) [of p v] have "v \<le> highest_fidelity l" by simp
    with Some show ?thesis by (simp add: loop_body_key [OF p])
  qed
  moreover have "for_loop s cal ks l = Inr l"
  proof (rule Cons.IH)
    show "set ks \<subseteq> set (keys cal)" using Cons.prems(1) by simp
    show "v \<le> highest_fidelity l" if "q \<in> set ks" "fidelity s cal q = Some v" for q v
      using Cons.prems(2) [of q v] that by simp
  qed
  ultimately show ?case by simp
qed

lemma for_loop_below:
  assumes "set ks \<subseteq> set (keys cal)"
    and "\<And>p v. p \<in> set ks \<Longrightarrow> fidelity s cal p = Some v \<Longrightarrow> v < b"
    and "highest_fidelity l < b"
  shows "\<exists>l'. for_loop s cal ks l = Inr l' \<and> highest_fidelity l' < b"
  using assms
proof (induction ks arbitrary: l)
  case Nil
  then show ?case by simp
next
  case (Cons p ks)
  from Cons.prems(1) have p: "p \<in> set (keys cal)" by simp
  have "\<exists>l1. loop_body s cal p l = Inr l1 \<and> highest_fidelity l1 < b"
  proof (cases "fidelity s cal p")
    case None
    with Cons.prems(3) show ?thesis by (simp add: loop_body_key [OF p])
  next
    case (Some v)
    with Cons.prems(2) [of p v] have "v < b" by simp
    with Some Cons.prems(3) show ?thesis by (simp add: loop_body_key [OF p])
  qed
  then obtain l1 where l1: "loop_body s cal p l = Inr l1" "highest_fidelity l1 < b"
    by (elim exE conjE)
  have "\<exists>l'. for_loop s cal ks l1 = Inr l' \<and> highest_fidelity l' < b"
  proof (rule Cons.IH)
    show "set ks \<subseteq> set (keys cal)" using Cons.prems(1) by simp
    show "v < b" if "q \<in> set ks" "fidelity s cal q = Some v" for q v
      using Cons.prems(2) [of q v] that by simp
    show "highest_fidelity l1 < b" by (rule l1(2))
  qed
  with l1(1) show ?case by simp
qed

lemma for_loop_attained:
  assumes "for_loop s cal ks l = Inr l'"
  shows "l' = l \<or>
         (\<exists>p. p \<in> set ks \<and> best_pair l' = Some p \<and>
              fidelity s cal p = Some (highest_fidelity l') \<and>
              highest_fidelity l < highest_fidelity l')"
  using assms
proof (induction ks arbitrary: l)
  case Nil
  then show ?case by simp
next
  case (Cons p ks)
  from Cons.prems obtain l1 where l1: "loop_body s cal p l = Inr l1"
    and rest: "for_loop s cal ks l1 = Inr l'"
    by (rule for_loop_ConsE)
  from l1 have step: "l1 = l \<or> (best_pair l1 = Some p \<and>
      fidelity s cal p = Some (highest_fidelity l1) \<and> highest_fidelity l < highest_fidelity l1)"
    by (rule loop_body_InrE) simp_all
  from l1 have mono: "highest_fidelity l \<le> highest_fidelity l1"
    by (rule loop_body_InrE) simp_all
  from Cons.IH [OF rest] show ?case
  proof
    assume "l' = l1"
    with step show ?thesis by auto
  next
    assume "\<exists>q. q \<in> set ks \<and> best_pair l' = Some q \<and>
      fidelity s cal q = Some (highest_fidelity l') \<and> highest_fidelity l1 < highest_fidelity l'"
    then obtain q where q: "q \<in> set ks" "best_pair l' = Some q"
      "fidelity s cal q = Some (highest_fidelity l')" "highest_fidelity l1 < highest_fidelity l'"
      by (elim exE conjE)
    from mono q(4) have "highest_fidelity l < highest_fidelity l'" by simp
    with q(1-3) have "q \<in> set (p # ks) \<and> best_pair l' = Some q \<and>
      fidelity s cal q = Some (highest_fidelity l') \<and> highest_fidelity l < highest_fidelity l'"
      by simp
    then show ?thesis by (intro disjI2 exI)
  qed
qed

lemma for_loop_upper:
  assumes "for_loop s cal ks l = Inr l'"
  shows "highest_fidelity l \<le> highest_fidelity l' \<and>
         (\<forall>p\<in>set ks. \<forall>v. fidelity s cal p = Some v \<longrightarrow> v \<le> highest_fidelity l')"
  using assms
proof (induction ks arbitrary: l)
  case Nil
  then show ?case by simp
next
  case (Cons p ks)
  from Cons.prems obtain l1 where l1: "loop_body s cal p l = Inr l1"
    and rest: "for_loop s cal ks l1 = Inr l'"
    by (rule for_loop_ConsE)
  from l1 have mono: "highest_fidelity l \<le> highest_fidelity l1"
    by (rule loop_body_InrE) simp_all
  from l1 have here: "\<forall>v. fidelity s cal p = Some v \<longrightarrow> v \<le> highest_fidelity l1"
  proof (rule loop_body_InrE)
    assume "l1 = l" "\<And>v. fidelity s cal p = Some v \<Longrightarrow> v \<le> highest_fidelity l"
    then show ?thesis by simp
  next
    fix v assume "fidelity s cal p = Some v" "l1 = l\<lparr>highest_fidelity := v, best_pair := Some p\<rparr>"
    then show ?thesis by simp
  qed
  from Cons.IH [OF rest] have ih: "highest_fidelity l1 \<le> highest_fidelity l'"
    "\<forall>q\<in>set ks. \<forall>v. fidelity s cal q = Some v \<longrightarrow> v \<le> highest_fidelity l'"
    by simp_all
  from mono ih(1) have "highest_fidelity l \<le> highest_fidelity l'" by simp
  moreover from here ih(1) have "\<forall>v. fidelity s cal p = Some v \<longrightarrow> v \<le> highest_fidelity l'"
    by (meson order_trans)
  ultimately show ?case using ih(2) by simp
qed

lemma fidelity_entry:
  "distinct (keys cal) \<Longrightarrow> (p, r) \<in> set cal \<Longrightarrow> fidelity s cal p = r (''f'' @ s)"
  by (simp add: fidelity_def keys_def)

lemma fidelity_SomeD:
  assumes "fidelity s cal p = Some v"
  shows "\<exists>r. (p, r) \<in> set cal \<and> r (''f'' @ s) = Some v"
proof (cases "map_of cal p")
  case None
  with assms show ?thesis by (simp add: fidelity_def)
next
  case (Some r)
  with assms have "r (''f'' @ s) = Some v" by (simp add: fidelity_def)
  moreover from Some have "(p, r) \<in> set cal" by (rule map_of_SomeD)
  ultimately show ?thesis by (intro exI conjI)
qed

subsection \<open>The parser\<close>

lemma while_loop_error: "while_loop bp q i = Inl e \<Longrightarrow> e = IndexError"
proof (induction bp q i rule: while_loop.induct)
  case (1 bp q1 i)
  from "1.prems" show ?case
    by (subst (asm) while_loop.simps) (auto split: if_splits intro: "1.IH")
qed

lemma while_loop_hyphen:
  "CHR ''-'' \<notin> set ys \<Longrightarrow>
   while_loop (xs @ ys @ CHR ''-'' # zs) q (length xs) = Inr (q @ ys, length xs + length ys)"
proof (induction ys arbitrary: xs q)
  case Nil
  show ?case by (subst while_loop.simps) simp
next
  case (Cons y ys)
  then have y: "y \<noteq> CHR ''-''" and ys: "CHR ''-'' \<notin> set ys" by auto
  have "while_loop (xs @ (y # ys) @ CHR ''-'' # zs) q (length xs) =
        while_loop ((xs @ [y]) @ ys @ CHR ''-'' # zs) (q @ [y]) (length (xs @ [y]))"
    using y by (subst while_loop.simps) simp
  also have "\<dots> = Inr ((q @ [y]) @ ys, length (xs @ [y]) + length ys)"
    using ys by (rule Cons.IH)
  finally show ?case by simp
qed

lemma digit_not_space: "is_digit c \<Longrightarrow> \<not> py_isspace c"
  by (auto simp: is_digit_def py_isspace_def)

lemma digit_not_sign: "is_digit c \<Longrightarrow> c \<noteq> CHR ''-'' \<and> c \<noteq> CHR ''+'' \<and> c \<noteq> CHR ''_''"
  by (auto simp: is_digit_def)

lemma digits_ok_digits: "ds \<noteq> [] \<Longrightarrow> list_all is_digit ds \<Longrightarrow> digits_ok ds"
  by (induction ds rule: digits_ok.induct) (auto dest: digit_not_sign)

lemma strip_digits:
  assumes "digits ds"
  shows "strip ds = ds"
proof -
  from assms obtain c cs where ds: "ds = c # cs" and c: "is_digit c"
    by (cases ds) (auto simp: digits_def)
  from assms obtain d es where rds: "rev ds = d # es" and d: "is_digit d"
    by (cases "rev ds") (auto simp: digits_def list_all_iff)
  from ds c have "dropWhile py_isspace ds = ds"
    by (simp add: digit_not_space)
  moreover from rds d have "dropWhile py_isspace (rev ds) = rev ds"
    by (simp add: digit_not_space)
  ultimately show ?thesis by (simp add: strip_def)
qed

lemma py_int_digits:
  assumes "digits ds"
  shows "py_int ds = Inr (int (digits_value ds))"
proof -
  from assms obtain c cs where ds: "ds = c # cs" and c: "is_digit c"
    by (cases ds) (auto simp: digits_def)
  from assms have all: "list_all is_digit ds" and ne: "ds \<noteq> []"
    by (simp_all add: digits_def)
  have ok: "digits_ok ds" using ne all by (rule digits_ok_digits)
  have "\<forall>x\<in>set ds. x \<noteq> CHR ''_''"
    using all digit_not_sign by (auto simp: list_all_iff)
  then have flt: "filter (\<lambda>c. c \<noteq> CHR ''_'') ds = ds"
    by (simp add: filter_id_conv)
  from ds c have hd: "hd ds \<noteq> CHR ''-''" "hd ds \<noteq> CHR ''+''"
    using digit_not_sign [of c] by simp_all
  show ?thesis
    using ok flt hd by (simp add: py_int_def strip_digits [OF assms])
qed

lemma py_int_error: "py_int s = Inl e \<Longrightarrow> e = InvalidLiteral s"
  by (simp add: py_int_def Let_def split: if_splits)

lemma parse_pair_error:
  assumes "parse_pair bp = Inl e"
  shows "e = IndexError \<or> (\<exists>t. e = InvalidLiteral t)"
  using assms
  by (auto simp: parse_pair_def split: if_splits sum.splits prod.splits
      dest: while_loop_error py_int_error)

subsection \<open>The function, case by case\<close>

lemma find_qubit_pair_scanned:
  assumes "s \<in> set gate_list" and "device_specs g ''2Q'' = Some cal"
    and "for_loop s cal (keys cal) \<lparr>highest_fidelity = 0, best_pair = None\<rparr> = Inr l"
  shows "fst (find_qubit_pair (PyStr s) g) =
     (case best_pair l of
        None \<Rightarrow> Inl (UnboundLocalError ''best_pair'')
      | Some bp \<Rightarrow>
          (case parse_pair bp of
             Inl e \<Rightarrow> Inl e
           | Inr (q1, q2) \<Rightarrow> Inr (q1, q2, highest_fidelity l)))"
  using assms
  by (simp add: find_qubit_pair_def split: option.splits sum.splits prod.splits)

lemma find_qubit_pair_InrE:
  assumes "fst (find_qubit_pair gate g) = Inr (q1, q2, f)"
  obtains s cal l bp where "gate = PyStr s" "s \<in> set gate_list"
    "device_specs g ''2Q'' = Some cal"
    "for_loop s cal (keys cal) \<lparr>highest_fidelity = 0, best_pair = None\<rparr> = Inr l"
    "best_pair l = Some bp" "parse_pair bp = Inr (q1, q2)" "highest_fidelity l = f"
proof (cases gate)
  case (PyStr s)
  show ?thesis
  proof (cases "s \<in> set gate_list")
    case False
    with assms PyStr show ?thesis by (simp add: find_qubit_pair_def)
  next
    case True
    show ?thesis
    proof (cases "device_specs g ''2Q''")
      case None
      with assms PyStr True show ?thesis by (simp add: find_qubit_pair_def)
    next
      case (Some cal)
      show ?thesis
      proof (cases "for_loop s cal (keys cal) \<lparr>highest_fidelity = 0, best_pair = None\<rparr>")
        case (Inl e)
        with assms PyStr True Some show ?thesis by (simp add: find_qubit_pair_def)
      next
        case (Inr l)
        note scanned = find_qubit_pair_scanned [OF True Some Inr]
        show ?thesis
        proof (cases "best_pair l")
          case None
          with assms PyStr scanned show ?thesis by simp
        next
          case bp: (Some bp)
          show ?thesis
          proof (cases "parse_pair bp")
            case (Inl e)
            with assms PyStr scanned bp show ?thesis by simp
          next
            case r: (Inr qq)
            with assms PyStr scanned bp have "qq = (q1, q2)" "highest_fidelity l = f"
              by (simp_all split: prod.splits)
            with r have "parse_pair bp = Inr (q1, q2)" by simp
            from that [OF PyStr True Some Inr bp this \<open>highest_fidelity l = f\<close>]
            show ?thesis .
          qed
        qed
      qed
    qed
  qed
qed (use assms in \<open>simp_all add: find_qubit_pair_def\<close>)

lemma find_qubit_pair_no_local_error:
  assumes "s \<in> set gate_list"
  shows "fst (find_qubit_pair (PyStr s) g) \<noteq> Inl (ValueError msg)"
proof (cases "device_specs g ''2Q''")
  case None
  with assms show ?thesis by (simp add: find_qubit_pair_def)
next
  case (Some cal)
  show ?thesis
  proof (cases "for_loop s cal (keys cal) \<lparr>highest_fidelity = 0, best_pair = None\<rparr>")
    case (Inl e)
    then obtain k where "e = KeyError k" using for_loop_error by blast
    with assms Some Inl show ?thesis by (simp add: find_qubit_pair_def)
  next
    case (Inr l)
    note scanned = find_qubit_pair_scanned [OF assms Some Inr]
    show ?thesis
    proof (cases "best_pair l")
      case None
      with scanned show ?thesis by simp
    next
      case bp: (Some bp)
      show ?thesis
      proof (cases "parse_pair bp")
        case (Inl e)
        from parse_pair_error [OF Inl] scanned bp Inl show ?thesis by auto
      next
        case r: (Inr qq)
        with scanned bp show ?thesis by (simp split: prod.splits)
      qed
    qed
  qed
qed

section \<open>The claims\<close>

subsection \<open>The two argument checks\<close>

text \<open>
  Claim C2. For every string \<open>s\<close> that is none of CPHASE, CZ and XY, the call raises the
  \<^verbatim>\<open>ValueError\<close> of the second check. The calibration data is not read: the
  outcome is the same whatever \<^verbatim>\<open>device.properties.provider.specs\<close> holds, also
  when it has no entry \<^verbatim>\<open>'2Q'\<close> at all.
\<close>

theorem unrecognized_gate_raises:
  assumes "s \<notin> set gate_list"
  shows "fst (find_qubit_pair (PyStr s) g) =
           Inl (ValueError ''The input gate must be either CPHASE, CZ or XY.'') \<and>
         (\<forall>specs. fst (find_qubit_pair (PyStr s) (g\<lparr>device_specs := specs\<rparr>)) =
                  fst (find_qubit_pair (PyStr s) g))"
  using assms by (simp add: find_qubit_pair_def)

theorem unrecognized_gate_raises_witness:
  "''CNOT'' \<notin> set gate_list \<and>
   fst (find_qubit_pair (PyStr ''CNOT'') \<lparr>device_specs = Map.empty\<rparr>) =
     Inl (ValueError ''The input gate must be either CPHASE, CZ or XY.'')"
proof -
  have h: "''CNOT'' \<notin> set gate_list" by (simp add: gate_list_def)
  from unrecognized_gate_raises [OF h, of "\<lparr>device_specs = Map.empty\<rparr>"] h
  show ?thesis by simp
qed

text \<open>
  Claim C3. For every argument that is not a string, the call raises the
  \<^verbatim>\<open>ValueError\<close> of the first check.
\<close>

theorem non_string_gate_raises:
  assumes "\<forall>s. gate \<noteq> PyStr s"
  shows "fst (find_qubit_pair gate g) = Inl (ValueError ''The input gate must be a string type.'')"
  using assms by (cases gate) (simp_all add: find_qubit_pair_def)

theorem non_string_gate_raises_witness:
  "(\<forall>s. PyInt 3 \<noteq> PyStr s) \<and>
   fst (find_qubit_pair (PyInt 3) \<lparr>device_specs = Map.empty\<rparr>) =
     Inl (ValueError ''The input gate must be a string type.'') \<and>
   fst (find_qubit_pair PyNone \<lparr>device_specs = Map.empty\<rparr>) =
     Inl (ValueError ''The input gate must be a string type.'')"
proof -
  have h: "\<forall>s. PyInt 3 \<noteq> PyStr s" and h': "\<forall>s. PyNone \<noteq> PyStr s" by simp_all
  from non_string_gate_raises [OF h, of "\<lparr>device_specs = Map.empty\<rparr>"]
    non_string_gate_raises [OF h', of "\<lparr>device_specs = Map.empty\<rparr>"] h
  show ?thesis by simp
qed

subsection \<open>No pair defines the gate\<close>

lemma for_loop_undefined:
  assumes "\<forall>(p, r)\<in>set cal. \<forall>v. r (''f'' @ s) = Some v \<longrightarrow> v \<le> 0"
  shows "for_loop s cal (keys cal) \<lparr>highest_fidelity = 0, best_pair = None\<rparr> =
           Inr \<lparr>highest_fidelity = 0, best_pair = None\<rparr>"
proof (rule for_loop_unchanged)
  show "set (keys cal) \<subseteq> set (keys cal)" by simp
next
  fix p v
  assume "p \<in> set (keys cal)" and fid: "fidelity s cal p = Some v"
  from fidelity_SomeD [OF fid] obtain r where "(p, r) \<in> set cal" "r (''f'' @ s) = Some v"
    by (elim exE conjE)
  with assms have "v \<le> 0" by fastforce
  then show "v \<le> highest_fidelity \<lparr>highest_fidelity = 0, best_pair = None\<rparr>" by simp
qed

text \<open>
  Claim C4. For a gate of the list and a table in which no record has a fidelity for
  the gate, the call does not return: the loop never binds \<^verbatim>\<open>best_pair\<close>, and the
  read \<^verbatim>\<open>best_pair[0]\<close> raises \<^verbatim>\<open>UnboundLocalError\<close>. No \<^verbatim>\<open>raise\<close>
  statement of the function guards this path: the exception is none of its
  \<^verbatim>\<open>ValueError\<close>s.
\<close>

theorem no_entry_defines_gate:
  assumes "s \<in> set gate_list" and "device_specs g ''2Q'' = Some cal"
    and "\<forall>(p, r)\<in>set cal. r (''f'' @ s) = None"
  shows "fst (find_qubit_pair (PyStr s) g) = Inl (UnboundLocalError ''best_pair'') \<and>
         (\<forall>msg. fst (find_qubit_pair (PyStr s) g) \<noteq> Inl (ValueError msg))"
proof -
  from assms(3) have "\<forall>(p, r)\<in>set cal. \<forall>v. r (''f'' @ s) = Some v \<longrightarrow> v \<le> 0"
    by fastforce
  then have "for_loop s cal (keys cal) \<lparr>highest_fidelity = 0, best_pair = None\<rparr> =
           Inr \<lparr>highest_fidelity = 0, best_pair = None\<rparr>"
    by (rule for_loop_undefined)
  from find_qubit_pair_scanned [OF assms(1,2) this]
  show ?thesis by simp
qed

theorem no_entry_defines_gate_witness:
  "''XY'' \<in> set gate_list \<and>
   fst (find_qubit_pair (PyStr ''XY'')
      \<lparr>device_specs = [''2Q'' \<mapsto> [(''0-1'', [''fCZ'' \<mapsto> 9 / 10]), (''1-2'', Map.empty)]]\<rparr>) =
     Inl (UnboundLocalError ''best_pair'') \<and>
   fst (find_qubit_pair (PyStr ''CZ'') \<lparr>device_specs = [''2Q'' \<mapsto> []]\<rparr>) =
     Inl (UnboundLocalError ''best_pair'')"
proof -
  have xy: "''XY'' \<in> set gate_list" and cz: "''CZ'' \<in> set gate_list"
    by (simp_all add: gate_list_def)
  have a: "fst (find_qubit_pair (PyStr ''XY'')
      \<lparr>device_specs = [''2Q'' \<mapsto> [(''0-1'', [''fCZ'' \<mapsto> 9 / 10]), (''1-2'', Map.empty)]]\<rparr>) =
     Inl (UnboundLocalError ''best_pair'')"
    using no_entry_defines_gate [OF xy, of
        "\<lparr>device_specs = [''2Q'' \<mapsto> [(''0-1'', [''fCZ'' \<mapsto> 9 / 10]), (''1-2'', Map.empty)]]\<rparr>"
        "[(''0-1'', [''fCZ'' \<mapsto> 9 / 10]), (''1-2'', Map.empty)]"]
    by simp
  have b: "fst (find_qubit_pair (PyStr ''CZ'') \<lparr>device_specs = [''2Q'' \<mapsto> []]\<rparr>) =
     Inl (UnboundLocalError ''best_pair'')"
    using no_entry_defines_gate [OF cz, of "\<lparr>device_specs = [''2Q'' \<mapsto> []]\<rparr>" "[]"]
    by simp
  from xy a b show ?thesis by simp
qed

subsection \<open>The errors the function defines\<close>

text \<open>
  Claim C6. The call ends with a \<^verbatim>\<open>ValueError\<close> of one of the function's own
  \<^verbatim>\<open>raise\<close> statements exactly when the argument is not a string or is a string
  outside the gate list. So for a string of the gate list no such error is raised,
  whatever the program state and the table are.
\<close>

theorem local_error_iff_invalid_gate:
  "(\<exists>msg. fst (find_qubit_pair gate g) = Inl (ValueError msg)) \<longleftrightarrow>
   (\<forall>s. gate = PyStr s \<longrightarrow> s \<notin> set gate_list)"
proof (cases gate)
  case (PyStr s)
  show ?thesis
  proof (cases "s \<in> set gate_list")
    case True
    have "fst (find_qubit_pair (PyStr s) g) \<noteq> Inl (ValueError msg)" for msg
      using True by (rule find_qubit_pair_no_local_error)
    then have "\<not> (\<exists>msg. fst (find_qubit_pair (PyStr s) g) = Inl (ValueError msg))" by simp
    with True PyStr show ?thesis by simp
  next
    case False
    with PyStr show ?thesis by (simp add: find_qubit_pair_def)
  qed
qed (simp_all add: find_qubit_pair_def)

theorem local_error_iff_invalid_gate_witness:
  "\<not> (\<exists>msg. fst (find_qubit_pair (PyStr ''CZ'') \<lparr>device_specs = Map.empty\<rparr>) =
            Inl (ValueError msg)) \<and>
   (\<exists>msg. fst (find_qubit_pair (PyStr ''H'') \<lparr>device_specs = Map.empty\<rparr>) =
            Inl (ValueError msg)) \<and>
   (\<exists>msg. fst (find_qubit_pair PyNone \<lparr>device_specs = Map.empty\<rparr>) =
            Inl (ValueError msg))"
  using local_error_iff_invalid_gate [of "PyStr ''CZ''" "\<lparr>device_specs = Map.empty\<rparr>"]
    local_error_iff_invalid_gate [of "PyStr ''H''" "\<lparr>device_specs = Map.empty\<rparr>"]
    local_error_iff_invalid_gate [of PyNone "\<lparr>device_specs = Map.empty\<rparr>"]
  by (simp add: gate_list_def)

subsection \<open>The program state\<close>

text \<open>
  Claim C10. Every call, whether it returns or raises, leaves the program state as it
  found it: the calibration table and whatever else the state holds (the record's
  extension).
\<close>

theorem state_unchanged: "snd (find_qubit_pair gate g) = g"
  by (simp add: find_qubit_pair_def split: py_value.splits option.splits sum.splits prod.splits)

theorem state_unchanged_witness:
  "snd (find_qubit_pair (PyStr ''CZ'') \<lparr>device_specs = [''2Q'' \<mapsto> [(''0-1'', [''fCZ'' \<mapsto> 9 / 10])]]\<rparr>) =
     \<lparr>device_specs = [''2Q'' \<mapsto> [(''0-1'', [''fCZ'' \<mapsto> 9 / 10])]]\<rparr> \<and>
   snd (find_qubit_pair PyNone \<lparr>device_specs = Map.empty\<rparr>) = \<lparr>device_specs = Map.empty\<rparr>"
  using state_unchanged [of "PyStr ''CZ''"
      "\<lparr>device_specs = [''2Q'' \<mapsto> [(''0-1'', [''fCZ'' \<mapsto> 9 / 10])]]\<rparr>"]
    state_unchanged [of PyNone "\<lparr>device_specs = Map.empty\<rparr>"]
  by simp

subsection \<open>Parsing a pair label\<close>

text \<open>\<open>digits_value\<close> is the number a string of decimal digits denotes: appending a
  digit multiplies by ten and adds the digit.\<close>

lemma digits_value_snoc: "digits_value (ds @ [c]) = 10 * digits_value ds + digit_value c"
  by (simp add: digits_value_def)

text \<open>
  Claim C5. For a label made of decimal digits, a hyphen and decimal digits, such as
  \<^verbatim>\<open>21-36\<close>, the parsing step of the function yields two integers: the number before
  the hyphen as the first qubit and the number after it as the second (for
  \<^verbatim>\<open>21-36\<close>, 21 and 36).
\<close>

theorem pair_label_parsed:
  assumes "digits d1" and "digits d2"
  shows "parse_pair (d1 @ ''-'' @ d2) = Inr (int (digits_value d1), int (digits_value d2))"
proof -
  from assms(1) obtain c cs where d1: "d1 = c # cs" and all: "list_all is_digit d1"
    by (cases d1) (auto simp: digits_def)
  have "CHR ''-'' \<notin> set cs"
    using all d1 digit_not_sign by (auto simp: list_all_iff)
  then have "while_loop ([c] @ cs @ CHR ''-'' # d2) [c] (length [c]) = Inr ([c] @ cs, length [c] + length cs)"
    by (rule while_loop_hyphen)
  then have w: "while_loop (d1 @ CHR ''-'' # d2) [c] 1 = Inr (d1, length d1)"
    by (simp add: d1)
  have ne: "d1 @ CHR ''-'' # d2 \<noteq> []" by simp
  have hd: "(d1 @ CHR ''-'' # d2) ! 0 = c" by (simp add: d1)
  have "drop (length d1 + 1) (d1 @ CHR ''-'' # d2) = d2" by simp
  with w ne hd have "parse_pair (d1 @ CHR ''-'' # d2) =
      Inr (int (digits_value d1), int (digits_value d2))"
    unfolding parse_pair_def
    by (simp add: py_int_digits [OF assms(1)] py_int_digits [OF assms(2)])
  then show ?thesis by simp
qed

theorem pair_label_parsed_witness:
  "digits ''21'' \<and> digits ''36'' \<and> parse_pair ''21-36'' = Inr (21, 36)"
proof -
  have d: "digits ''21''" "digits ''36''"
    by (simp_all add: digits_def is_digit_def)
  have v: "digits_value ''21'' = 21" "digits_value ''36'' = 36"
    by (simp_all add: digits_value_def digit_value_def)
  from pair_label_parsed [OF d] v d show ?thesis by simp
qed

subsection \<open>The range of the returned fidelity\<close>

text \<open>
  The function returns the fidelity it read from the table, unchanged, and nothing in
  it bounds that value from above: with the single entry \<^verbatim>\<open>'0-1': {'fCZ': 1.5}\<close> the
  call returns 0, 1 and 1.5, a fidelity outside the interval from 0 to 1.
\<close>

theorem returned_fidelity_above_one:
  "fst (find_qubit_pair (PyStr ''CZ'')
      \<lparr>device_specs = [''2Q'' \<mapsto> [(''0-1'', [''fCZ'' \<mapsto> 3 / 2])]]\<rparr>) = Inr (0, 1, 3 / 2) \<and>
   \<not> (0 \<le> (3 / 2 :: real) \<and> (3 / 2 :: real) \<le> 1)"
  by (simp add: find_qubit_pair_def gate_list_def keys_def loop_body_def parse_pair_def
      while_loop.simps py_int_def strip_def py_isspace_def is_digit_def digits_value_def
      digit_value_def)

text \<open>
  Claim C7, as the code has it. Whenever the call returns, the fidelity it returns is
  above 0, because the running maximum starts at 0 and only a greater value replaces
  it, and it is the fidelity that an entry of the table defines for the gate. So it
  is at most 1, and lies in the interval from 0 to 1, whenever the fidelities that the
  table defines for the gate are at most 1.
\<close>

theorem returned_fidelity_positive_table_value:
  assumes "device_specs g ''2Q'' = Some cal"
    and "fst (find_qubit_pair (PyStr s) g) = Inr (q1, q2, f)"
  shows "0 < f \<and> (\<exists>p r. (p, r) \<in> set cal \<and> r (''f'' @ s) = Some f) \<and>
         ((\<forall>(p, r)\<in>set cal. \<forall>v. r (''f'' @ s) = Some v \<longrightarrow> v \<le> 1) \<longrightarrow> 0 \<le> f \<and> f \<le> 1)"
proof -
  from assms(2) obtain s' cal' l bp where *: "PyStr s = PyStr s'"
    "device_specs g ''2Q'' = Some cal'"
    "for_loop s' cal' (keys cal') \<lparr>highest_fidelity = 0, best_pair = None\<rparr> = Inr l"
    "best_pair l = Some bp" "highest_fidelity l = f"
    by (rule find_qubit_pair_InrE)
  with assms(1) have loop: "for_loop s cal (keys cal) \<lparr>highest_fidelity = 0, best_pair = None\<rparr> = Inr l"
    by simp
  from for_loop_attained [OF loop] *(4) obtain p where
    p: "fidelity s cal p = Some (highest_fidelity l)" and pos: "0 < highest_fidelity l"
    by auto
  from fidelity_SomeD [OF p] obtain r where
    r: "(p, r) \<in> set cal" "r (''f'' @ s) = Some (highest_fidelity l)"
    by (elim exE conjE)
  from pos *(5) have 1: "0 < f" by simp
  from r *(5) have 2: "\<exists>p r. (p, r) \<in> set cal \<and> r (''f'' @ s) = Some f"
    by (intro exI [of _ p] exI [of _ r]) simp
  have 3: "0 \<le> f \<and> f \<le> 1"
    if bound: "\<forall>(p, r)\<in>set cal. \<forall>v. r (''f'' @ s) = Some v \<longrightarrow> v \<le> 1"
  proof -
    from bound r have "highest_fidelity l \<le> 1" by fastforce
    with pos *(5) show ?thesis by simp
  qed
  from 1 2 3 show ?thesis by blast
qed

theorem returned_fidelity_positive_table_value_witness:
  "fst (find_qubit_pair (PyStr ''CZ'')
      \<lparr>device_specs = [''2Q'' \<mapsto> [(''0-1'', [''fCZ'' \<mapsto> 9 / 10]), (''21-36'', [''fCZ'' \<mapsto> 97 / 100])]]\<rparr>) =
     Inr (21, 36, 97 / 100) \<and> (0::real) < 97 / 100 \<and> (97 / 100 :: real) \<le> 1 \<and>
   (\<exists>p r. (p, r) \<in> set [(''0-1'', [''fCZ'' \<mapsto> 9 / 10]), (''21-36'', [''fCZ'' \<mapsto> 97 / 100])] \<and>
          r ''fCZ'' = Some (97 / 100 :: real))"
proof -
  let ?cal = "[(''0-1'', [''fCZ'' \<mapsto> 9 / 10]), (''21-36'', [''fCZ'' \<mapsto> (97 / 100 :: real)])]"
  let ?g = "\<lparr>device_specs = [''2Q'' \<mapsto> ?cal]\<rparr>"
  have a: "device_specs ?g ''2Q'' = Some ?cal" by simp
  have b: "\<forall>(p, r)\<in>set ?cal. \<forall>v. r (''f'' @ ''CZ'') = Some v \<longrightarrow> v \<le> 1" by simp
  have c: "fst (find_qubit_pair (PyStr ''CZ'') ?g) = Inr (21, 36, 97 / 100)"
    by (simp add: find_qubit_pair_def gate_list_def keys_def loop_body_def parse_pair_def
        while_loop.simps py_int_def strip_def py_isspace_def is_digit_def digits_value_def
        digit_value_def)
  note inst = returned_fidelity_positive_table_value [OF a c]
  from inst have 1: "(0::real) < 97 / 100" by blast
  from inst have 2: "\<exists>p r. (p, r) \<in> set ?cal \<and> r (''f'' @ ''CZ'') = Some (97 / 100)" by blast
  from inst b have 3: "(97 / 100 :: real) \<le> 1" by blast
  from c 1 2 3 show ?thesis by simp
qed

subsection \<open>Ties\<close>

lemma fidelity_of_key:
  assumes "distinct (keys cal)" and "set part \<subseteq> set cal" and "q \<in> set (keys part)"
  shows "\<exists>r. (q, r) \<in> set part \<and> fidelity s cal q = r (''f'' @ s)"
proof -
  from map_of_keys [OF assms(3)] obtain r where r: "(q, r) \<in> set part"
    by (elim exE conjE)
  from assms(2) r have "(q, r) \<in> set cal" by (rule subsetD)
  with assms(1) have "fidelity s cal q = r (''f'' @ s)" by (rule fidelity_entry)
  with r show ?thesis by (intro exI conjI)
qed

lemma for_loop_first_maximum:
  assumes cal: "cal = pre @ (p, r) # post"
    and dist: "distinct (keys cal)"
    and v: "r (''f'' @ s) = Some v" and pos: "highest_fidelity l < v"
    and before: "\<forall>(p', r')\<in>set pre. \<forall>w. r' (''f'' @ s) = Some w \<longrightarrow> w < v"
    and after: "\<forall>(p', r')\<in>set post. \<forall>w. r' (''f'' @ s) = Some w \<longrightarrow> w \<le> v"
  shows "\<exists>l'. for_loop s cal (keys cal) l = Inr l' \<and> highest_fidelity l' = v \<and> best_pair l' = Some p"
proof -
  have sub: "set (keys pre) \<subseteq> set (keys cal)" "p \<in> set (keys cal)" "set (keys post) \<subseteq> set (keys cal)"
    by (auto simp: cal keys_def)
  have "\<exists>l1. for_loop s cal (keys pre) l = Inr l1 \<and> highest_fidelity l1 < v"
  proof (rule for_loop_below [OF sub(1) _ pos])
    fix q w
    assume q: "q \<in> set (keys pre)" and w: "fidelity s cal q = Some w"
    have "set pre \<subseteq> set cal" by (auto simp: cal)
    from fidelity_of_key [OF dist this q, of s] w obtain r' where
      "(q, r') \<in> set pre" "r' (''f'' @ s) = Some w" by auto
    with before show "w < v" by fastforce
  qed
  then obtain l1 where l1: "for_loop s cal (keys pre) l = Inr l1" "highest_fidelity l1 < v"
    by (elim exE conjE)
  have "(p, r) \<in> set cal" by (simp add: cal)
  with dist have "fidelity s cal p = Some v"
    using v by (simp add: fidelity_entry)
  with l1(2) have body: "loop_body s cal p l1 = Inr (l1\<lparr>highest_fidelity := v, best_pair := Some p\<rparr>)"
    by (simp add: loop_body_key [OF sub(2)])
  have rest: "for_loop s cal (keys post) (l1\<lparr>highest_fidelity := v, best_pair := Some p\<rparr>) =
      Inr (l1\<lparr>highest_fidelity := v, best_pair := Some p\<rparr>)"
  proof (rule for_loop_unchanged [OF sub(3)])
    fix q w
    assume q: "q \<in> set (keys post)" and w: "fidelity s cal q = Some w"
    have "set post \<subseteq> set cal" by (auto simp: cal)
    from fidelity_of_key [OF dist this q, of s] w obtain r' where
      "(q, r') \<in> set post" "r' (''f'' @ s) = Some w" by auto
    with after have "w \<le> v" by fastforce
    then show "w \<le> highest_fidelity (l1\<lparr>highest_fidelity := v, best_pair := Some p\<rparr>)" by simp
  qed
  have "keys cal = keys pre @ p # keys post"
    by (simp add: cal keys_def)
  then have "for_loop s cal (keys cal) l = Inr (l1\<lparr>highest_fidelity := v, best_pair := Some p\<rparr>)"
    by (simp add: for_loop_append l1(1) body rest)
  then show ?thesis by simp
qed

lemma find_qubit_pair_first_maximum:
  assumes "s \<in> set gate_list"
    and "device_specs g ''2Q'' = Some (pre @ (p, r) # post)"
    and "distinct (keys (pre @ (p, r) # post))"
    and "r (''f'' @ s) = Some v" and "0 < v"
    and "\<forall>(p', r')\<in>set pre. \<forall>w. r' (''f'' @ s) = Some w \<longrightarrow> w < v"
    and "\<forall>(p', r')\<in>set post. \<forall>w. r' (''f'' @ s) = Some w \<longrightarrow> w \<le> v"
  shows "fst (find_qubit_pair (PyStr s) g) =
           (case parse_pair p of Inl e \<Rightarrow> Inl e | Inr (q1, q2) \<Rightarrow> Inr (q1, q2, v))"
proof -
  have "highest_fidelity \<lparr>highest_fidelity = 0, best_pair = None\<rparr> < v"
    using assms(5) by simp
  from for_loop_first_maximum [OF refl assms(3,4) this assms(6,7)]
  obtain l' where l': "for_loop s (pre @ (p, r) # post) (keys (pre @ (p, r) # post))
      \<lparr>highest_fidelity = 0, best_pair = None\<rparr> = Inr l'"
    "highest_fidelity l' = v" "best_pair l' = Some p"
    by (elim exE conjE)
  from find_qubit_pair_scanned [OF assms(1,2) l'(1)] l'(2,3)
  show ?thesis by (simp split: sum.splits prod.splits)
qed

lemma loop_body_mono:
  assumes "loop_body s cal p l = Inr l1"
  shows "highest_fidelity l \<le> highest_fidelity l1"
  using assms by (rule loop_body_InrE) simp_all

lemma for_loop_split:
  assumes "for_loop s cal ks l = Inr l'"
  shows "l' = l \<or>
    (\<exists>pre p post. ks = pre @ p # post \<and> best_pair l' = Some p \<and>
       fidelity s cal p = Some (highest_fidelity l') \<and>
       highest_fidelity l < highest_fidelity l' \<and>
       (\<forall>q\<in>set pre. \<forall>w. fidelity s cal q = Some w \<longrightarrow> w < highest_fidelity l') \<and>
       (\<forall>q\<in>set post. \<forall>w. fidelity s cal q = Some w \<longrightarrow> w \<le> highest_fidelity l'))"
  using assms
proof (induction ks arbitrary: l)
  case Nil
  then show ?case by simp
next
  case (Cons k ks)
  from Cons.prems obtain l1 where l1: "loop_body s cal k l = Inr l1"
    and rest: "for_loop s cal ks l1 = Inr l'"
    by (rule for_loop_ConsE)
  note mono = loop_body_mono [OF l1]
  from for_loop_upper [OF rest] have upper:
    "\<forall>q\<in>set ks. \<forall>w. fidelity s cal q = Some w \<longrightarrow> w \<le> highest_fidelity l'"
    by simp
  from l1 have here: "\<forall>w. fidelity s cal k = Some w \<longrightarrow> w \<le> highest_fidelity l1"
  proof (rule loop_body_InrE)
    assume "l1 = l" "\<And>v. fidelity s cal k = Some v \<Longrightarrow> v \<le> highest_fidelity l"
    then show ?thesis by simp
  next
    fix v assume "fidelity s cal k = Some v" "l1 = l\<lparr>highest_fidelity := v, best_pair := Some k\<rparr>"
    then show ?thesis by simp
  qed
  from Cons.IH [OF rest] show ?case
  proof
    assume same: "l' = l1"
    from l1 show ?thesis
    proof (rule loop_body_InrE)
      assume "l1 = l"
      with same show ?thesis by simp
    next
      fix v
      assume v: "fidelity s cal k = Some v" "highest_fidelity l < v"
        "l1 = l\<lparr>highest_fidelity := v, best_pair := Some k\<rparr>"
      with same have "k # ks = [] @ k # ks \<and> best_pair l' = Some k \<and>
        fidelity s cal k = Some (highest_fidelity l') \<and>
        highest_fidelity l < highest_fidelity l' \<and>
        (\<forall>q\<in>set []. \<forall>w. fidelity s cal q = Some w \<longrightarrow> w < highest_fidelity l') \<and>
        (\<forall>q\<in>set ks. \<forall>w. fidelity s cal q = Some w \<longrightarrow> w \<le> highest_fidelity l')"
        using upper by simp
      then show ?thesis by (intro disjI2 exI)
    qed
  next
    assume "\<exists>pre p post. ks = pre @ p # post \<and> best_pair l' = Some p \<and>
       fidelity s cal p = Some (highest_fidelity l') \<and>
       highest_fidelity l1 < highest_fidelity l' \<and>
       (\<forall>q\<in>set pre. \<forall>w. fidelity s cal q = Some w \<longrightarrow> w < highest_fidelity l') \<and>
       (\<forall>q\<in>set post. \<forall>w. fidelity s cal q = Some w \<longrightarrow> w \<le> highest_fidelity l')"
    then obtain pre p post where sp: "ks = pre @ p # post" "best_pair l' = Some p"
      "fidelity s cal p = Some (highest_fidelity l')"
      "highest_fidelity l1 < highest_fidelity l'"
      "\<forall>q\<in>set pre. \<forall>w. fidelity s cal q = Some w \<longrightarrow> w < highest_fidelity l'"
      "\<forall>q\<in>set post. \<forall>w. fidelity s cal q = Some w \<longrightarrow> w \<le> highest_fidelity l'"
      by (elim exE conjE)
    from here sp(4) have k: "\<forall>w. fidelity s cal k = Some w \<longrightarrow> w < highest_fidelity l'"
      by (meson le_less_trans)
    from mono sp(4) have "highest_fidelity l < highest_fidelity l'" by simp
    with sp k have "k # ks = (k # pre) @ p # post \<and> best_pair l' = Some p \<and>
        fidelity s cal p = Some (highest_fidelity l') \<and>
        highest_fidelity l < highest_fidelity l' \<and>
        (\<forall>q\<in>set (k # pre). \<forall>w. fidelity s cal q = Some w \<longrightarrow> w < highest_fidelity l') \<and>
        (\<forall>q\<in>set post. \<forall>w. fidelity s cal q = Some w \<longrightarrow> w \<le> highest_fidelity l')"
      by simp
    then show ?thesis by (intro disjI2 exI)
  qed
qed

lemma keys_split:
  assumes "keys cal = pre @ p # post"
  shows "\<exists>pre' r post'. cal = pre' @ (p, r) # post' \<and> keys pre' = pre \<and> keys post' = post"
proof -
  from assms obtain us vs where uv: "cal = us @ vs" "pre = map fst us" "p # post = map fst vs"
    unfolding keys_def map_eq_append_conv by (elim exE conjE)
  from uv(3) obtain z zs where z: "vs = z # zs" "fst z = p" "map fst zs = post"
    by (cases vs) auto
  from z(2) obtain r where "z = (p, r)" by (cases z) simp
  with uv z have "cal = us @ (p, r) # zs \<and> keys us = pre \<and> keys zs = post"
    by (simp add: keys_def)
  then show ?thesis by (intro exI)
qed

lemma entries_bounded:
  assumes dist: "distinct (keys cal)" and sub: "set part \<subseteq> set cal"
    and bound: "\<forall>q\<in>set (keys part). \<forall>w. fidelity s cal q = Some w \<longrightarrow> P w"
  shows "\<forall>(p', r')\<in>set part. \<forall>w. r' (''f'' @ s) = Some w \<longrightarrow> P w"
proof (intro ballI, clarify)
  fix p' r' w
  assume e: "(p', r') \<in> set part" and w: "r' (''f'' @ s) = Some w"
  from e have k: "p' \<in> set (keys part)" by (force simp: keys_def)
  from sub e have "(p', r') \<in> set cal" by (rule subsetD)
  with dist w have "fidelity s cal p' = Some w" by (simp add: fidelity_entry)
  with bound k show "P w" by simp
qed

lemma find_qubit_pair_returns_first_maximum:
  assumes specs: "device_specs g ''2Q'' = Some cal" and dist: "distinct (keys cal)"
    and ret: "fst (find_qubit_pair (PyStr s) g) = Inr (q1, q2, f)"
  shows "\<exists>pre p r post. cal = pre @ (p, r) # post \<and> parse_pair p = Inr (q1, q2) \<and>
           r (''f'' @ s) = Some f \<and> 0 < f \<and>
           (\<forall>(p', r')\<in>set pre. \<forall>w. r' (''f'' @ s) = Some w \<longrightarrow> w < f) \<and>
           (\<forall>(p', r')\<in>set post. \<forall>w. r' (''f'' @ s) = Some w \<longrightarrow> w \<le> f)"
proof -
  let ?l0 = "\<lparr>highest_fidelity = 0, best_pair = None\<rparr>"
  from ret obtain s' cal' l bp where *: "PyStr s = PyStr s'"
    "device_specs g ''2Q'' = Some cal'"
    "for_loop s' cal' (keys cal') ?l0 = Inr l"
    "best_pair l = Some bp" "parse_pair bp = Inr (q1, q2)" "highest_fidelity l = f"
    by (rule find_qubit_pair_InrE)
  with specs have loop: "for_loop s cal (keys cal) ?l0 = Inr l" by simp
  from *(4) have "l \<noteq> ?l0" by auto
  with for_loop_split [OF loop] obtain pre p post where sp: "keys cal = pre @ p # post"
    "best_pair l = Some p" "fidelity s cal p = Some (highest_fidelity l)"
    "highest_fidelity ?l0 < highest_fidelity l"
    "\<forall>q\<in>set pre. \<forall>w. fidelity s cal q = Some w \<longrightarrow> w < highest_fidelity l"
    "\<forall>q\<in>set post. \<forall>w. fidelity s cal q = Some w \<longrightarrow> w \<le> highest_fidelity l"
    by (elim disjE exE conjE) simp_all
  from keys_split [OF sp(1)] obtain pre' r post' where
    cal: "cal = pre' @ (p, r) # post'" "keys pre' = pre" "keys post' = post"
    by (elim exE conjE)
  have "(p, r) \<in> set cal" by (simp add: cal(1))
  with dist sp(3) have r: "r (''f'' @ s) = Some (highest_fidelity l)"
    by (simp add: fidelity_entry)
  have "set pre' \<subseteq> set cal" by (auto simp: cal(1))
  from entries_bounded [OF dist this, of s "\<lambda>w. w < highest_fidelity l"] sp(5) cal(2)
  have before: "\<forall>(p', r')\<in>set pre'. \<forall>w. r' (''f'' @ s) = Some w \<longrightarrow> w < highest_fidelity l"
    by simp
  have "set post' \<subseteq> set cal" by (auto simp: cal(1))
  from entries_bounded [OF dist this, of s "\<lambda>w. w \<le> highest_fidelity l"] sp(6) cal(3)
  have after: "\<forall>(p', r')\<in>set post'. \<forall>w. r' (''f'' @ s) = Some w \<longrightarrow> w \<le> highest_fidelity l"
    by simp
  from sp(2) *(4) have "bp = p" by simp
  with *(5) have parse: "parse_pair p = Inr (q1, q2)" by simp
  from sp(4) have "0 < highest_fidelity l" by simp
  with cal(1) parse r before after have "cal = pre' @ (p, r) # post' \<and> parse_pair p = Inr (q1, q2) \<and>
           r (''f'' @ s) = Some f \<and> 0 < f \<and>
           (\<forall>(p', r')\<in>set pre'. \<forall>w. r' (''f'' @ s) = Some w \<longrightarrow> w < f) \<and>
           (\<forall>(p', r')\<in>set post'. \<forall>w. r' (''f'' @ s) = Some w \<longrightarrow> w \<le> f)"
    unfolding *(6) by simp
  then show ?thesis by (intro exI)
qed

text \<open>
  Which entry the call returns, when it returns. Both directions: an entry \<open>(p, r)\<close>
  with a fidelity \<open>v\<close> above 0 is the one selected when every entry before it has a
  fidelity below \<open>v\<close> and every entry after it has a fidelity of at most \<open>v\<close> (a later
  entry may reach \<open>v\<close>; since the test is \<^verbatim>\<open>>\<close>, it does not replace \<open>p\<close>), and the
  result is the parse of \<open>p\<close> together with \<open>v\<close>; and whenever the call returns, what
  it returns is the parse and the fidelity of such an entry: strictly above everything
  before it, at least everything after it.
\<close>

lemma first_maximum_selected:
  assumes "s \<in> set gate_list" and "device_specs g ''2Q'' = Some cal"
    and "distinct (keys cal)"
  shows "(cal = pre @ (p, r) # post \<and> r (''f'' @ s) = Some v \<and> 0 < v \<and>
          (\<forall>(p', r')\<in>set pre. \<forall>w. r' (''f'' @ s) = Some w \<longrightarrow> w < v) \<and>
          (\<forall>(p', r')\<in>set post. \<forall>w. r' (''f'' @ s) = Some w \<longrightarrow> w \<le> v) \<longrightarrow>
            fst (find_qubit_pair (PyStr s) g) =
              (case parse_pair p of Inl e \<Rightarrow> Inl e | Inr (q1, q2) \<Rightarrow> Inr (q1, q2, v))) \<and>
         (fst (find_qubit_pair (PyStr s) g) = Inr (n1, n2, f) \<longrightarrow>
            (\<exists>pre p r post. cal = pre @ (p, r) # post \<and> parse_pair p = Inr (n1, n2) \<and>
               r (''f'' @ s) = Some f \<and> 0 < f \<and>
               (\<forall>(p', r')\<in>set pre. \<forall>w. r' (''f'' @ s) = Some w \<longrightarrow> w < f) \<and>
               (\<forall>(p', r')\<in>set post. \<forall>w. r' (''f'' @ s) = Some w \<longrightarrow> w \<le> f)))"
proof (intro conjI impI)
  assume a: "cal = pre @ (p, r) # post \<and> r (''f'' @ s) = Some v \<and> 0 < v \<and>
          (\<forall>(p', r')\<in>set pre. \<forall>w. r' (''f'' @ s) = Some w \<longrightarrow> w < v) \<and>
          (\<forall>(p', r')\<in>set post. \<forall>w. r' (''f'' @ s) = Some w \<longrightarrow> w \<le> v)"
  then have cal: "cal = pre @ (p, r) # post" by simp
  show "fst (find_qubit_pair (PyStr s) g) =
      (case parse_pair p of Inl e \<Rightarrow> Inl e | Inr (q1, q2) \<Rightarrow> Inr (q1, q2, v))"
  proof (rule find_qubit_pair_first_maximum [OF assms(1)])
    show "device_specs g ''2Q'' = Some (pre @ (p, r) # post)" using assms(2) cal by simp
    show "distinct (keys (pre @ (p, r) # post))" using assms(3) cal by simp
    show "r (''f'' @ s) = Some v" "0 < v"
      "\<forall>(p', r')\<in>set pre. \<forall>w. r' (''f'' @ s) = Some w \<longrightarrow> w < v"
      "\<forall>(p', r')\<in>set post. \<forall>w. r' (''f'' @ s) = Some w \<longrightarrow> w \<le> v"
      using a by simp_all
  qed
next
  assume "fst (find_qubit_pair (PyStr s) g) = Inr (n1, n2, f)"
  with assms(2,3) show "\<exists>pre p r post. cal = pre @ (p, r) # post \<and> parse_pair p = Inr (n1, n2) \<and>
               r (''f'' @ s) = Some f \<and> 0 < f \<and>
               (\<forall>(p', r')\<in>set pre. \<forall>w. r' (''f'' @ s) = Some w \<longrightarrow> w < f) \<and>
               (\<forall>(p', r')\<in>set post. \<forall>w. r' (''f'' @ s) = Some w \<longrightarrow> w \<le> f)"
    by (rule find_qubit_pair_returns_first_maximum)
qed

lemma first_maximum_selected_example:
  "fst (find_qubit_pair (PyStr ''CZ'')
      \<lparr>device_specs = [''2Q'' \<mapsto>
         [(''0-1'', [''fCZ'' \<mapsto> 9 / 10, ''fXY'' \<mapsto> 99 / 100]),
          (''21-36'', [''fCZ'' \<mapsto> 97 / 100]),
          (''3-4'', [''fCPHASE'' \<mapsto> 1]),
          (''10-11'', [''fCZ'' \<mapsto> 97 / 100])]]\<rparr>) =
     Inr (21, 36, 97 / 100) \<and>
   (\<exists>pre p r post.
      [(''0-1'', [''fCZ'' \<mapsto> 9 / 10, ''fXY'' \<mapsto> 99 / 100]),
       (''21-36'', [''fCZ'' \<mapsto> 97 / 100]),
       (''3-4'', [''fCPHASE'' \<mapsto> 1]),
       (''10-11'', [''fCZ'' \<mapsto> 97 / 100])] = pre @ (p, r) # post \<and>
      parse_pair p = Inr (21, 36) \<and> r ''fCZ'' = Some (97 / 100 :: real) \<and>
      (\<forall>(p', r')\<in>set pre. \<forall>w. r' ''fCZ'' = Some w \<longrightarrow> w < 97 / 100) \<and>
      (\<forall>(p', r')\<in>set post. \<forall>w. r' ''fCZ'' = Some w \<longrightarrow> w \<le> 97 / 100))"
proof -
  let ?pre = "[(''0-1'', [''fCZ'' \<mapsto> 9 / 10, ''fXY'' \<mapsto> (99 / 100 :: real)])]"
  let ?r = "[''fCZ'' \<mapsto> (97 / 100 :: real)]"
  let ?post = "[(''3-4'', [''fCPHASE'' \<mapsto> 1]), (''10-11'', [''fCZ'' \<mapsto> (97 / 100 :: real)])]"
  let ?cal = "?pre @ (''21-36'', ?r) # ?post"
  let ?g = "\<lparr>device_specs = [''2Q'' \<mapsto> ?cal]\<rparr>"
  have 1: "''CZ'' \<in> set gate_list" by (simp add: gate_list_def)
  have 2: "device_specs ?g ''2Q'' = Some ?cal" by simp
  have 3: "distinct (keys ?cal)" by (simp add: keys_def)
  have 4: "?r (''f'' @ ''CZ'') = Some (97 / 100)" by simp
  have 5: "(0::real) < 97 / 100" by simp
  have 6: "\<forall>(p', r')\<in>set ?pre. \<forall>w. r' (''f'' @ ''CZ'') = Some w \<longrightarrow> w < 97 / 100" by simp
  have 7: "\<forall>(p', r')\<in>set ?post. \<forall>w. r' (''f'' @ ''CZ'') = Some w \<longrightarrow> w \<le> 97 / 100" by simp
  have 8: "parse_pair ''21-36'' = Inr (21, 36)"
    by (simp add: parse_pair_def while_loop.simps py_int_def strip_def py_isspace_def
        is_digit_def digits_value_def digit_value_def)
  note inst = first_maximum_selected [OF 1 2 3, of ?pre "''21-36''" ?r ?post "97 / 100" 21 36 "97 / 100"]
  from inst 4 5 6 7 have "fst (find_qubit_pair (PyStr ''CZ'') ?g) =
      (case parse_pair ''21-36'' of Inl e \<Rightarrow> Inl e | Inr (q1, q2) \<Rightarrow> Inr (q1, q2, 97 / 100))"
    by blast
  with 8 have ret: "fst (find_qubit_pair (PyStr ''CZ'') ?g) = Inr (21, 36, 97 / 100)" by simp
  with inst have "\<exists>pre p r post. ?cal = pre @ (p, r) # post \<and> parse_pair p = Inr (21, 36) \<and>
      r (''f'' @ ''CZ'') = Some (97 / 100) \<and> (0::real) < 97 / 100 \<and>
      (\<forall>(p', r')\<in>set pre. \<forall>w. r' (''f'' @ ''CZ'') = Some w \<longrightarrow> w < 97 / 100) \<and>
      (\<forall>(p', r')\<in>set post. \<forall>w. r' (''f'' @ ''CZ'') = Some w \<longrightarrow> w \<le> 97 / 100)"
    by blast
  with ret show ?thesis by simp
qed

text \<open>
  Claim C8. When several entries share the highest fidelity of the gate, the call
  should return the pair of the one that comes first in the table's iteration order.
  It does so when that fidelity is above 0. It does not when the entries tie at 0: in
  the table with the entries \<^verbatim>\<open>'0-1': {'fCZ': 0.0}\<close> and \<^verbatim>\<open>'2-3': {'fCZ': 0.0}\<close> both
  pairs have the highest fidelity for CZ, the first label parses to 0 and 1, but the
  call raises \<^verbatim>\<open>UnboundLocalError\<close>, since 0 is not above the value the running
  maximum starts with.
\<close>

theorem tie_at_zero_raises:
  "fidelity ''CZ'' [(''0-1'', [''fCZ'' \<mapsto> 0]), (''2-3'', [''fCZ'' \<mapsto> 0])] ''0-1'' = Some 0 \<and>
   fidelity ''CZ'' [(''0-1'', [''fCZ'' \<mapsto> 0]), (''2-3'', [''fCZ'' \<mapsto> 0])] ''2-3'' = Some 0 \<and>
   parse_pair ''0-1'' = Inr (0, 1) \<and>
   fst (find_qubit_pair (PyStr ''CZ'')
      \<lparr>device_specs = [''2Q'' \<mapsto> [(''0-1'', [''fCZ'' \<mapsto> 0]), (''2-3'', [''fCZ'' \<mapsto> 0])]]\<rparr>) =
     Inl (UnboundLocalError ''best_pair'')"
  by (simp add: find_qubit_pair_def gate_list_def keys_def loop_body_def fidelity_def
      parse_pair_def while_loop.simps py_int_def strip_def py_isspace_def is_digit_def
      digits_value_def digit_value_def)

subsection \<open>Fidelities that are not above 0\<close>

text \<open>
  Claim C9. An entry whose fidelity for the gate is 0 or less is never selected: the
  running maximum starts at 0 and only a greater value replaces it. So for a table in
  which every entry that defines the gate has fidelity 0 (or less), the variable
  \<^verbatim>\<open>best_pair\<close> is never assigned, and the read \<^verbatim>\<open>best_pair[0]\<close> raises
  \<^verbatim>\<open>UnboundLocalError\<close>, although entries that define the gate exist.
\<close>

theorem nonpositive_fidelity_never_selected:
  assumes "distinct (keys cal)"
  shows "(\<forall>l p r v.
            for_loop s cal (keys cal) \<lparr>highest_fidelity = 0, best_pair = None\<rparr> = Inr l \<and>
            (p, r) \<in> set cal \<and> r (''f'' @ s) = Some v \<and> v \<le> 0 \<longrightarrow> best_pair l \<noteq> Some p) \<and>
         (s \<in> set gate_list \<and> device_specs g ''2Q'' = Some cal \<and>
          (\<forall>(p, r)\<in>set cal. \<forall>v. r (''f'' @ s) = Some v \<longrightarrow> v \<le> 0) \<longrightarrow>
            fst (find_qubit_pair (PyStr s) g) = Inl (UnboundLocalError ''best_pair''))"
proof (intro conjI allI impI)
  fix l p r v
  assume a: "for_loop s cal (keys cal) \<lparr>highest_fidelity = 0, best_pair = None\<rparr> = Inr l \<and>
            (p, r) \<in> set cal \<and> r (''f'' @ s) = Some v \<and> v \<le> 0"
  then have loop: "for_loop s cal (keys cal) \<lparr>highest_fidelity = 0, best_pair = None\<rparr> = Inr l"
    and entry: "(p, r) \<in> set cal" and v: "r (''f'' @ s) = Some v" "v \<le> 0"
    by simp_all
  from assms entry v(1) have fid: "fidelity s cal p = Some v"
    by (simp add: fidelity_entry)
  show "best_pair l \<noteq> Some p"
  proof
    assume sel: "best_pair l = Some p"
    with for_loop_attained [OF loop] have
      "fidelity s cal p = Some (highest_fidelity l) \<and> 0 < highest_fidelity l"
      by auto
    with fid v(2) show False by simp
  qed
next
  assume a: "s \<in> set gate_list \<and> device_specs g ''2Q'' = Some cal \<and>
          (\<forall>(p, r)\<in>set cal. \<forall>v. r (''f'' @ s) = Some v \<longrightarrow> v \<le> 0)"
  then have "for_loop s cal (keys cal) \<lparr>highest_fidelity = 0, best_pair = None\<rparr> =
           Inr \<lparr>highest_fidelity = 0, best_pair = None\<rparr>"
    by (intro for_loop_undefined) simp
  with a find_qubit_pair_scanned [of s g cal "\<lparr>highest_fidelity = 0, best_pair = None\<rparr>"]
  show "fst (find_qubit_pair (PyStr s) g) = Inl (UnboundLocalError ''best_pair'')"
    by simp
qed

theorem nonpositive_fidelity_never_selected_witness:
  "fst (find_qubit_pair (PyStr ''XY'')
      \<lparr>device_specs = [''2Q'' \<mapsto>
         [(''0-1'', [''fXY'' \<mapsto> 0, ''fCZ'' \<mapsto> 9 / 10]), (''1-2'', [''fXY'' \<mapsto> 0])]]\<rparr>) =
     Inl (UnboundLocalError ''best_pair'') \<and>
   (\<exists>l. for_loop ''XY'' [(''0-1'', [''fXY'' \<mapsto> 0]), (''1-2'', [''fXY'' \<mapsto> 1 / 2])]
            (keys [(''0-1'', [''fXY'' \<mapsto> 0]), (''1-2'', [''fXY'' \<mapsto> (1 / 2 :: real)])])
            \<lparr>highest_fidelity = 0, best_pair = None\<rparr> = Inr l \<and>
        best_pair l \<noteq> Some ''0-1'')"
proof -
  let ?cal = "[(''0-1'', [''fXY'' \<mapsto> 0, ''fCZ'' \<mapsto> (9 / 10 :: real)]), (''1-2'', [''fXY'' \<mapsto> 0])]"
  let ?g = "\<lparr>device_specs = [''2Q'' \<mapsto> ?cal]\<rparr>"
  have 1: "distinct (keys ?cal)" by (simp add: keys_def)
  have 2: "''XY'' \<in> set gate_list" by (simp add: gate_list_def)
  have 3: "device_specs ?g ''2Q'' = Some ?cal" by simp
  have 4: "\<forall>(p, r)\<in>set ?cal. \<forall>v. r (''f'' @ ''XY'') = Some v \<longrightarrow> v \<le> 0" by simp
  from nonpositive_fidelity_never_selected [OF 1, of "''XY''" ?g] 2 3 4
  have a: "fst (find_qubit_pair (PyStr ''XY'') ?g) = Inl (UnboundLocalError ''best_pair'')"
    by blast
  let ?mixed = "[(''0-1'', [''fXY'' \<mapsto> 0]), (''1-2'', [''fXY'' \<mapsto> (1 / 2 :: real)])]"
  let ?l = "\<lparr>highest_fidelity = 1 / 2, best_pair = Some ''1-2''\<rparr>"
  have 5: "distinct (keys ?mixed)" by (simp add: keys_def)
  have 6: "for_loop ''XY'' ?mixed (keys ?mixed) \<lparr>highest_fidelity = 0, best_pair = None\<rparr> = Inr ?l"
    by (simp add: keys_def loop_body_def)
  have 7: "(''0-1'', [''fXY'' \<mapsto> 0]) \<in> set ?mixed" "[''fXY'' \<mapsto> (0::real)] (''f'' @ ''XY'') = Some 0"
    "(0::real) \<le> 0"
    by simp_all
  from nonpositive_fidelity_never_selected [OF 5, of "''XY''"] 6 7
  have "best_pair ?l \<noteq> Some ''0-1''" by blast
  with 6 have b: "\<exists>l. for_loop ''XY'' ?mixed (keys ?mixed)
      \<lparr>highest_fidelity = 0, best_pair = None\<rparr> = Inr l \<and> best_pair l \<noteq> Some ''0-1''"
    by (intro exI conjI)
  from a b show ?thesis by simp
qed

subsection \<open>The highest fidelity\<close>

text \<open>
  What the function finds when some entry has a fidelity above 0 for the gate: an entry
  whose fidelity is the highest of the table, returned with its parsed label.
\<close>

lemma for_loop_total:
  "set ks \<subseteq> set (keys cal) \<Longrightarrow> \<exists>l'. for_loop s cal ks l = Inr l'"
proof (induction ks arbitrary: l)
  case Nil
  show ?case by simp
next
  case (Cons p ks)
  from Cons.prems have p: "p \<in> set (keys cal)" and ks: "set ks \<subseteq> set (keys cal)"
    by simp_all
  have "\<exists>l1. loop_body s cal p l = Inr l1"
    by (cases "fidelity s cal p") (simp_all add: loop_body_key [OF p])
  then obtain l1 where "loop_body s cal p l = Inr l1" ..
  with Cons.IH [OF ks, of l1] show ?case by simp
qed

lemma find_qubit_pair_maximum:
  assumes gate: "s \<in> set gate_list" and specs: "device_specs g ''2Q'' = Some cal"
    and entry: "(p0, r0) \<in> set cal" "r0 (''f'' @ s) = Some v0" "0 < v0"
    and dist: "distinct (keys cal)"
  shows "\<exists>p r f. (p, r) \<in> set cal \<and> r (''f'' @ s) = Some f \<and>
           (\<forall>(p', r')\<in>set cal. \<forall>w. r' (''f'' @ s) = Some w \<longrightarrow> w \<le> f) \<and>
           fst (find_qubit_pair (PyStr s) g) =
             (case parse_pair p of Inl e \<Rightarrow> Inl e | Inr (q1, q2) \<Rightarrow> Inr (q1, q2, f))"
proof -
  let ?l0 = "\<lparr>highest_fidelity = 0, best_pair = None\<rparr>"
  have "\<exists>l. for_loop s cal (keys cal) ?l0 = Inr l"
    by (rule for_loop_total) simp
  then obtain l where loop: "for_loop s cal (keys cal) ?l0 = Inr l" ..
  have p0: "p0 \<in> set (keys cal)" using entry(1) by (force simp: keys_def)
  from dist entry(1,2) have f0: "fidelity s cal p0 = Some v0" by (simp add: fidelity_entry)
  from for_loop_upper [OF loop] have upper:
    "\<forall>q\<in>set (keys cal). \<forall>w. fidelity s cal q = Some w \<longrightarrow> w \<le> highest_fidelity l"
    by simp
  with p0 f0 have "v0 \<le> highest_fidelity l" by simp
  with entry(3) have "l \<noteq> ?l0" by auto
  with for_loop_attained [OF loop] obtain p where
    p: "best_pair l = Some p" "fidelity s cal p = Some (highest_fidelity l)"
    by auto
  from fidelity_SomeD [OF p(2)] obtain r where
    r: "(p, r) \<in> set cal" "r (''f'' @ s) = Some (highest_fidelity l)"
    by (elim exE conjE)
  have max: "\<forall>(p', r')\<in>set cal. \<forall>w. r' (''f'' @ s) = Some w \<longrightarrow> w \<le> highest_fidelity l"
  proof (intro ballI allI impI, clarify)
    fix p' r' w
    assume e: "(p', r') \<in> set cal" and w: "r' (''f'' @ s) = Some w"
    from e have "p' \<in> set (keys cal)" by (force simp: keys_def)
    moreover from dist e w have "fidelity s cal p' = Some w" by (simp add: fidelity_entry)
    ultimately show "w \<le> highest_fidelity l" using upper by simp
  qed
  from find_qubit_pair_scanned [OF gate specs loop] p(1)
  have "fst (find_qubit_pair (PyStr s) g) =
      (case parse_pair p of Inl e \<Rightarrow> Inl e | Inr (q1, q2) \<Rightarrow> Inr (q1, q2, highest_fidelity l))"
    by simp
  with r max show ?thesis by blast
qed

text \<open>
  Claim C1. For a gate of the list and a table with at least one entry that defines a
  fidelity for the gate, the call should return the pair and the fidelity of the entry
  with the highest fidelity. It does not when the highest fidelity is 0: in the table
  with the single entry \<^verbatim>\<open>'0-1': {'fCZ': 0.0}\<close> the pair 0-1 has the highest
  fidelity for CZ and its label parses to 0 and 1, but the call raises
  \<^verbatim>\<open>UnboundLocalError\<close>.
\<close>

theorem zero_fidelity_table_raises:
  "fidelity ''CZ'' [(''0-1'', [''fCZ'' \<mapsto> 0])] ''0-1'' = Some 0 \<and>
   parse_pair ''0-1'' = Inr (0, 1) \<and>
   fst (find_qubit_pair (PyStr ''CZ'') \<lparr>device_specs = [''2Q'' \<mapsto> [(''0-1'', [''fCZ'' \<mapsto> 0])]]\<rparr>) =
     Inl (UnboundLocalError ''best_pair'')"
  by (simp add: find_qubit_pair_def gate_list_def keys_def loop_body_def fidelity_def
      parse_pair_def while_loop.simps py_int_def strip_def py_isspace_def is_digit_def
      digits_value_def digit_value_def)

end
